theory Spec2Isabelle
  imports Main
begin

section \<open>The message processor (package message)\<close>

text \<open>
  The processor owns two buffered channels, \<^verbatim>\<open>fromClientAPI\<close> and
  \<^verbatim>\<open>fromFederator\<close>, both made with capacity 100, and an unbuffered channel
  \<^verbatim>\<open>stop\<close> that is only ever closed. \<^verbatim>\<open>Start\<close> spawns a goroutine running
  the loop \<^verbatim>\<open>DistLoop\<close>, a \<^verbatim>\<open>select\<close> over the three channels;
  \<^verbatim>\<open>Stop\<close> closes \<^verbatim>\<open>stop\<close>.

  The message types \<^verbatim>\<open>gtsmodel.FromClientAPI\<close> and \<^verbatim>\<open>gtsmodel.FromFederator\<close>
  are declared in another package, so they are the type parameters \<open>'c\<close> and
  \<open>'f\<close>. The handlers \<^verbatim>\<open>processFromClientAPI\<close> and \<^verbatim>\<open>processFromFederator\<close>
  are parameters as well: each takes a message and everything it may act on (the
  database, the federator, the storage: the type \<open>'w\<close>) and gives back an error or nil
  together with what it left behind.
\<close>

datatype ('c, 'f) msg = ClientMsg 'c | FederatorMsg 'f

text \<open>What \<^verbatim>\<open>p.log\<close> receives: the \<^verbatim>\<open>Infof\<close> line of a received message, and
  the \<^verbatim>\<open>Error\<close> line of a handler's error.\<close>

datatype ('c, 'f, 'e) log_entry = LogInfof "('c, 'f) msg" | LogError 'e

text \<open>Where a goroutine spawned by \<^verbatim>\<open>Start\<close> stands: waiting in the
  \<^verbatim>\<open>select\<close>, inside the handler of the message it received, or past
  \<^verbatim>\<open>break DistLoop\<close>.\<close>

datatype ('c, 'f) goroutine = AtSelect | Processing "('c, 'f) msg" | Exited

record ('c, 'f, 'e, 'w) processor =
  fromClientAPI :: "'c list"
  fromFederator :: "'f list"
  stop :: bool
  loops :: "('c, 'f) goroutine list"
  log :: "('c, 'f, 'e) log_entry list"
  world :: 'w

record ('c, 'f, 'e, 'w) handlers =
  processFromClientAPI :: "'c \<Rightarrow> 'w \<Rightarrow> 'e option \<times> 'w"
  processFromFederator :: "'f \<Rightarrow> 'w \<Rightarrow> 'e option \<times> 'w"

text \<open>The capacity both channels are made with in \<^verbatim>\<open>NewProcessor\<close>.\<close>

definition chan_cap :: nat where
  "chan_cap = 100"

definition NewProcessor :: "'w \<Rightarrow> ('c, 'f, 'e, 'w) processor" where
  "NewProcessor w =
     \<lparr>fromClientAPI = [], fromFederator = [], stop = False, loops = [], log = [], world = w\<rparr>"

text \<open>What can go wrong with an operation on a channel: it blocks (the event cannot
  take place in this state), or it panics.\<close>

datatype fault = Blocked | Panic

text \<open>A send on a buffered channel goes through while the buffer has room and blocks
  the sender otherwise; the buffer is first in, first out.\<close>

definition send_fromClientAPI ::
  "'c \<Rightarrow> ('c, 'f, 'e, 'w) processor \<Rightarrow> fault + ('c, 'f, 'e, 'w) processor" where
  "send_fromClientAPI m p =
     (if length (fromClientAPI p) < chan_cap
      then Inr (p\<lparr>fromClientAPI := fromClientAPI p @ [m]\<rparr>)
      else Inl Blocked)"

definition send_fromFederator ::
  "'f \<Rightarrow> ('c, 'f, 'e, 'w) processor \<Rightarrow> fault + ('c, 'f, 'e, 'w) processor" where
  "send_fromFederator m p =
     (if length (fromFederator p) < chan_cap
      then Inr (p\<lparr>fromFederator := fromFederator p @ [m]\<rparr>)
      else Inl Blocked)"

text \<open>\<^verbatim>\<open>Start\<close> spawns one more goroutine and returns nil, whatever the state.\<close>

definition Start :: "('c, 'f, 'e, 'w) processor \<Rightarrow> ('c, 'f, 'e, 'w) processor" where
  "Start p = p\<lparr>loops := loops p @ [AtSelect]\<rparr>"

text \<open>\<^verbatim>\<open>Stop\<close> is \<^verbatim>\<open>close(p.stop)\<close>: closing a closed channel panics.\<close>

definition Stop :: "('c, 'f, 'e, 'w) processor \<Rightarrow> fault + ('c, 'f, 'e, 'w) processor" where
  "Stop p = (if stop p then Inl Panic else Inr (p\<lparr>stop := True\<rparr>))"

text \<open>The three cases of the \<^verbatim>\<open>select\<close>, for the goroutine \<open>i\<close>. A case can be
  taken when its channel is ready: a buffer that holds a message, or the closed
  \<^verbatim>\<open>stop\<close>. When several are ready the language picks any one of them, so each
  is an event of its own.\<close>

definition recv_fromClientAPI ::
  "nat \<Rightarrow> ('c, 'f, 'e, 'w) processor \<Rightarrow> fault + ('c, 'f, 'e, 'w) processor" where
  "recv_fromClientAPI i p =
     (if i < length (loops p) \<and> loops p ! i = AtSelect
      then (case fromClientAPI p of
              [] \<Rightarrow> Inl Blocked
            | clientMsg # rest \<Rightarrow>
                Inr (p\<lparr>fromClientAPI := rest,
                       loops := (loops p)[i := Processing (ClientMsg clientMsg)],
                       log := log p @ [LogInfof (ClientMsg clientMsg)]\<rparr>))
      else Inl Blocked)"

definition recv_fromFederator ::
  "nat \<Rightarrow> ('c, 'f, 'e, 'w) processor \<Rightarrow> fault + ('c, 'f, 'e, 'w) processor" where
  "recv_fromFederator i p =
     (if i < length (loops p) \<and> loops p ! i = AtSelect
      then (case fromFederator p of
              [] \<Rightarrow> Inl Blocked
            | federatorMsg # rest \<Rightarrow>
                Inr (p\<lparr>fromFederator := rest,
                       loops := (loops p)[i := Processing (FederatorMsg federatorMsg)],
                       log := log p @ [LogInfof (FederatorMsg federatorMsg)]\<rparr>))
      else Inl Blocked)"

definition recv_stop ::
  "nat \<Rightarrow> ('c, 'f, 'e, 'w) processor \<Rightarrow> fault + ('c, 'f, 'e, 'w) processor" where
  "recv_stop i p =
     (if i < length (loops p) \<and> loops p ! i = AtSelect \<and> stop p
      then Inr (p\<lparr>loops := (loops p)[i := Exited]\<rparr>)
      else Inl Blocked)"

text \<open>The handler of the received message, by its origin.\<close>

fun process ::
  "('c, 'f, 'e, 'w) handlers \<Rightarrow> ('c, 'f) msg \<Rightarrow> 'w \<Rightarrow> 'e option \<times> 'w" where
  "process h (ClientMsg m) w = processFromClientAPI h m w"
| "process h (FederatorMsg m) w = processFromFederator h m w"

text \<open>The handler of goroutine \<open>i\<close> returns: its error, if any, goes to the log, and
  the goroutine is back at the \<^verbatim>\<open>select\<close>. What the handler does to the world is
  taken at its return, in one step; so is the \<^verbatim>\<open>Infof\<close> line at the reception.
  For a single dispatch loop this is exact, since nothing else touches the log or
  runs a handler meanwhile.\<close>

definition handler_returns ::
  "('c, 'f, 'e, 'w) handlers \<Rightarrow> nat \<Rightarrow> ('c, 'f, 'e, 'w) processor
     \<Rightarrow> fault + ('c, 'f, 'e, 'w) processor" where
  "handler_returns h i p =
     (if i < length (loops p)
      then (case loops p ! i of
              Processing m \<Rightarrow>
                (case process h m (world p) of
                   (None, w) \<Rightarrow>
                     Inr (p\<lparr>loops := (loops p)[i := AtSelect], world := w\<rparr>)
                 | (Some err, w) \<Rightarrow>
                     Inr (p\<lparr>loops := (loops p)[i := AtSelect],
                            log := log p @ [LogError err], world := w\<rparr>))
            | _ \<Rightarrow> Inl Blocked)
      else Inl Blocked)"

text \<open>The events of a run: what the producers, the owner of the processor and the
  goroutines do, one at a time.\<close>

datatype ('c, 'f) event =
    SendClient 'c
  | SendFederator 'f
  | CallStart
  | CallStop
  | RecvClient nat
  | RecvFederator nat
  | RecvStop nat
  | Return nat

fun step ::
  "('c, 'f, 'e, 'w) handlers \<Rightarrow> ('c, 'f) event \<Rightarrow> ('c, 'f, 'e, 'w) processor
     \<Rightarrow> fault + ('c, 'f, 'e, 'w) processor" where
  "step h (SendClient m) p = send_fromClientAPI m p"
| "step h (SendFederator m) p = send_fromFederator m p"
| "step h CallStart p = Inr (Start p)"
| "step h CallStop p = Stop p"
| "step h (RecvClient i) p = recv_fromClientAPI i p"
| "step h (RecvFederator i) p = recv_fromFederator i p"
| "step h (RecvStop i) p = recv_stop i p"
| "step h (Return i) p = handler_returns h i p"

text \<open>A run is a schedule of events, each taking place in the state the one before
  left; it ends at the first event that blocks or panics. A producer that waits on
  a full channel and gets through later is a send that stands later in the
  schedule.\<close>

fun run ::
  "('c, 'f, 'e, 'w) handlers \<Rightarrow> ('c, 'f) event list \<Rightarrow> ('c, 'f, 'e, 'w) processor
     \<Rightarrow> fault + ('c, 'f, 'e, 'w) processor" where
  "run h [] p = Inr p"
| "run h (e # es) p = (case step h e p of Inl f \<Rightarrow> Inl f | Inr p' \<Rightarrow> run h es p')"

text \<open>Observations on a run and its states.\<close>

fun sent_client :: "('c, 'f) event list \<Rightarrow> 'c list" where
  "sent_client [] = []"
| "sent_client (SendClient m # es) = m # sent_client es"
| "sent_client (_ # es) = sent_client es"

fun sent_federator :: "('c, 'f) event list \<Rightarrow> 'f list" where
  "sent_federator [] = []"
| "sent_federator (SendFederator m # es) = m # sent_federator es"
| "sent_federator (_ # es) = sent_federator es"

fun received :: "('c, 'f, 'e) log_entry list \<Rightarrow> ('c, 'f) msg list" where
  "received [] = []"
| "received (LogInfof m # l) = m # received l"
| "received (LogError _ # l) = received l"

fun client_msgs :: "('c, 'f) msg list \<Rightarrow> 'c list" where
  "client_msgs [] = []"
| "client_msgs (ClientMsg m # ms) = m # client_msgs ms"
| "client_msgs (FederatorMsg _ # ms) = client_msgs ms"

fun federator_msgs :: "('c, 'f) msg list \<Rightarrow> 'f list" where
  "federator_msgs [] = []"
| "federator_msgs (ClientMsg _ # ms) = federator_msgs ms"
| "federator_msgs (FederatorMsg m # ms) = m # federator_msgs ms"

fun in_handler :: "('c, 'f) goroutine \<Rightarrow> bool" where
  "in_handler (Processing _) = True"
| "in_handler _ = False"

definition in_flight :: "('c, 'f, 'e, 'w) processor \<Rightarrow> nat" where
  "in_flight p = length (filter in_handler (loops p))"

text \<open>The engine has stopped when it was started and every dispatch loop is past
  its \<^verbatim>\<open>break\<close>.\<close>

definition stopped :: "('c, 'f, 'e, 'w) processor \<Rightarrow> bool" where
  "stopped p = (loops p \<noteq> [] \<and> list_all (\<lambda>g. g = Exited) (loops p))"

text \<open>What the handlers have done to the world once they have run on the messages
  \<open>ms\<close>, in that order; and the messages whose handlers are running.\<close>

fun effects :: "('c, 'f, 'e, 'w) handlers \<Rightarrow> ('c, 'f) msg list \<Rightarrow> 'w \<Rightarrow> 'w" where
  "effects h [] w = w"
| "effects h (m # ms) w = effects h ms (snd (process h m w))"

fun pending :: "('c, 'f) goroutine list \<Rightarrow> ('c, 'f) msg list" where
  "pending [] = []"
| "pending (Processing m # gs) = m # pending gs"
| "pending (_ # gs) = pending gs"

text \<open>A schedule in which no message is received while a handler runs: receptions
  and returns alternate. The flag says whether a handler is running.\<close>

fun sequential :: "bool \<Rightarrow> ('c, 'f) event list \<Rightarrow> bool" where
  "sequential busy [] = True"
| "sequential busy (RecvClient i # es) = (\<not> busy \<and> sequential True es)"
| "sequential busy (RecvFederator i # es) = (\<not> busy \<and> sequential True es)"
| "sequential busy (Return i # es) = (busy \<and> sequential False es)"
| "sequential busy (_ # es) = sequential busy es"

text \<open>How many messages in a row have just been taken from one channel while the
  other one held a message: the first number counts receptions from
  \<^verbatim>\<open>fromClientAPI\<close>, the second those from \<^verbatim>\<open>fromFederator\<close>.\<close>

fun tally ::
  "('c, 'f) event \<Rightarrow> ('c, 'f, 'e, 'w) processor \<Rightarrow> nat \<times> nat \<Rightarrow> nat \<times> nat" where
  "tally (RecvClient i) p (a, b) = (if fromFederator p = [] then (0, 0) else (Suc a, 0))"
| "tally (RecvFederator i) p (a, b) = (if fromClientAPI p = [] then (0, 0) else (0, Suc b))"
| "tally _ p c = c"

fun streaks ::
  "('c, 'f, 'e, 'w) handlers \<Rightarrow> ('c, 'f) event list \<Rightarrow> ('c, 'f, 'e, 'w) processor
     \<Rightarrow> nat \<times> nat \<Rightarrow> nat \<times> nat" where
  "streaks h [] p c = c"
| "streaks h (e # es) p c =
     (case step h e p of Inl f \<Rightarrow> c | Inr p' \<Rightarrow> streaks h es p' (tally e p c))"


text \<open>Handlers to run examples with. A message is a pair of the acting account's
  number and the number of the entity; the world is the list of the messages handled
  so far; the handler of an entity numbered 0 returns an error.\<close>

definition actorID :: "(nat \<times> nat, nat \<times> nat) msg \<Rightarrow> nat" where
  "actorID m = (case m of ClientMsg c \<Rightarrow> fst c | FederatorMsg f \<Rightarrow> fst f)"

definition example_handlers ::
  "(nat \<times> nat, nat \<times> nat, string, (nat \<times> nat, nat \<times> nat) msg list) handlers" where
  "example_handlers =
     \<lparr>processFromClientAPI =
        (\<lambda>m w. (if snd m = 0 then Some ''client handler failed'' else None,
                 w @ [ClientMsg m])),
      processFromFederator =
        (\<lambda>m w. (if snd m = 0 then Some ''federator handler failed'' else None,
                 w @ [FederatorMsg m]))\<rparr>"

definition example_processor ::
  "(nat \<times> nat, nat \<times> nat, string, (nat \<times> nat, nat \<times> nat) msg list) processor" where
  "example_processor = NewProcessor []"

section \<open>The account actions of the command line (package account)\<close>

text \<open>
  Each action opens the database, reads the flags of the command line, looks the
  account and its user up and writes the user back. The packages \<^verbatim>\<open>gtsmodel\<close>,
  \<^verbatim>\<open>db\<close>, \<^verbatim>\<open>pg\<close>, \<^verbatim>\<open>util\<close> and \<^verbatim>\<open>config\<close> are not part of this development.
  The records hold the fields the actions touch, and \<open>other\<close> stands for every other
  column of a user. Errors are their messages.
\<close>

record account =
  account_ID :: string
  Username :: string
  Domain :: string

record 'r user =
  user_ID :: string
  AccountID :: string
  Email :: string
  UnconfirmedEmail :: string
  EncryptedPassword :: string
  ConfirmedAt :: nat
  Approved :: bool
  Admin :: bool
  Disabled :: bool
  other :: 'r

text \<open>The two tables, and the calls of \<^verbatim>\<open>UpdateByID\<close> that went through, in
  order.\<close>

record 'r database =
  accounts :: "account list"
  users :: "'r user list"
  updates :: "(string \<times> 'r user) list"

record config =
  AccountCLIFlags :: "string \<rightharpoonup> string"

datatype db_op =
    Op_NewPostgresService
  | Op_GetLocalAccountByUsername
  | Op_GetWhere
  | Op_UpdateByID
  | Op_Stop

text \<open>What an action is run with: the names of the flags, the validators of
  \<^verbatim>\<open>util\<close>, the clock, \<^verbatim>\<open>bcrypt.GenerateFromPassword\<close>, and for each operation
  of the database whether the database refuses it (with which error).\<close>

record env =
  UsernameFlag :: string
  PasswordFlag :: string
  ValidateUsername :: "string \<Rightarrow> string option"
  ValidateNewPassword :: "string \<Rightarrow> string option"
  time_Now :: nat
  GenerateFromPassword :: "string \<Rightarrow> string + string"
  db_refuses :: "db_op \<Rightarrow> string option"

definition ErrNoEntries :: string where
  "ErrNoEntries = ''no entries''"

text \<open>Modelled from the spec: the persistence layer (\<^verbatim>\<open>db.DB\<close> and its
  implementation \<^verbatim>\<open>pg\<close>) is missing. The spec has it as a store of records with
  atomic single-record operations, \<open>get\<close> giving the entity or NotFound and a write
  giving ok: a lookup returns the first matching row or \<^verbatim>\<open>ErrNoEntries\<close>, and
  \<^verbatim>\<open>UpdateByID\<close> replaces the row of that ID. A local account is one without a
  domain.\<close>

definition GetLocalAccountByUsername ::
  "env \<Rightarrow> string \<Rightarrow> 'r database \<Rightarrow> string + account" where
  "GetLocalAccountByUsername ev username d =
     (case db_refuses ev Op_GetLocalAccountByUsername of
        Some err \<Rightarrow> Inl err
      | None \<Rightarrow>
          (case find (\<lambda>a. Username a = username \<and> Domain a = []) (accounts d) of
             None \<Rightarrow> Inl ErrNoEntries
           | Some a \<Rightarrow> Inr a))"

text \<open>Modelled from the spec: \<^verbatim>\<open>GetWhere\<close> of the missing persistence layer, for
  the one condition the actions use it with, \<^verbatim>\<open>account_id\<close> equal to a value, on
  the table of users.\<close>

definition GetWhere_account_id ::
  "env \<Rightarrow> string \<Rightarrow> 'r database \<Rightarrow> string + 'r user" where
  "GetWhere_account_id ev aid d =
     (case db_refuses ev Op_GetWhere of
        Some err \<Rightarrow> Inl err
      | None \<Rightarrow>
          (case find (\<lambda>u. AccountID u = aid) (users d) of
             None \<Rightarrow> Inl ErrNoEntries
           | Some u \<Rightarrow> Inr u))"

text \<open>Modelled from the spec: \<^verbatim>\<open>UpdateByID\<close> of the missing persistence layer.\<close>

definition UpdateByID ::
  "env \<Rightarrow> string \<Rightarrow> 'r user \<Rightarrow> 'r database \<Rightarrow> string + 'r database" where
  "UpdateByID ev i u d =
     (case db_refuses ev Op_UpdateByID of
        Some err \<Rightarrow> Inl err
      | None \<Rightarrow>
          Inr (d\<lparr>users := map (\<lambda>r. if user_ID r = i then u else r) (users d),
                 updates := updates d @ [(i, u)]\<rparr>))"

text \<open>An action returns its error, or None for nil, and the database it leaves.\<close>

definition Confirm :: "env \<Rightarrow> config \<Rightarrow> 'r database \<Rightarrow> string option \<times> 'r database" where
  "Confirm ev c d =
     (case db_refuses ev Op_NewPostgresService of
        Some err \<Rightarrow> (Some (''error creating dbservice: '' @ err), d)
      | None \<Rightarrow>
     (case AccountCLIFlags c (UsernameFlag ev) of
        None \<Rightarrow> (Some ''no username set'', d)
      | Some username \<Rightarrow>
     (case ValidateUsername ev username of
        Some err \<Rightarrow> (Some err, d)
      | None \<Rightarrow>
     (case GetLocalAccountByUsername ev username d of
        Inl err \<Rightarrow> (Some err, d)
      | Inr a \<Rightarrow>
     (case GetWhere_account_id ev (account_ID a) d of
        Inl err \<Rightarrow> (Some err, d)
      | Inr u \<Rightarrow>
     (case UpdateByID ev (user_ID u)
             (u\<lparr>Approved := True, Email := UnconfirmedEmail u, ConfirmedAt := time_Now ev\<rparr>) d of
        Inl err \<Rightarrow> (Some err, d)
      | Inr d' \<Rightarrow> (db_refuses ev Op_Stop, d')))))))"

definition Promote :: "env \<Rightarrow> config \<Rightarrow> 'r database \<Rightarrow> string option \<times> 'r database" where
  "Promote ev c d =
     (case db_refuses ev Op_NewPostgresService of
        Some err \<Rightarrow> (Some (''error creating dbservice: '' @ err), d)
      | None \<Rightarrow>
     (case AccountCLIFlags c (UsernameFlag ev) of
        None \<Rightarrow> (Some ''no username set'', d)
      | Some username \<Rightarrow>
     (case ValidateUsername ev username of
        Some err \<Rightarrow> (Some err, d)
      | None \<Rightarrow>
     (case GetLocalAccountByUsername ev username d of
        Inl err \<Rightarrow> (Some err, d)
      | Inr a \<Rightarrow>
     (case GetWhere_account_id ev (account_ID a) d of
        Inl err \<Rightarrow> (Some err, d)
      | Inr u \<Rightarrow>
     (case UpdateByID ev (user_ID u) (u\<lparr>Admin := True\<rparr>) d of
        Inl err \<Rightarrow> (Some err, d)
      | Inr d' \<Rightarrow> (db_refuses ev Op_Stop, d')))))))"

definition Demote :: "env \<Rightarrow> config \<Rightarrow> 'r database \<Rightarrow> string option \<times> 'r database" where
  "Demote ev c d =
     (case db_refuses ev Op_NewPostgresService of
        Some err \<Rightarrow> (Some (''error creating dbservice: '' @ err), d)
      | None \<Rightarrow>
     (case AccountCLIFlags c (UsernameFlag ev) of
        None \<Rightarrow> (Some ''no username set'', d)
      | Some username \<Rightarrow>
     (case ValidateUsername ev username of
        Some err \<Rightarrow> (Some err, d)
      | None \<Rightarrow>
     (case GetLocalAccountByUsername ev username d of
        Inl err \<Rightarrow> (Some err, d)
      | Inr a \<Rightarrow>
     (case GetWhere_account_id ev (account_ID a) d of
        Inl err \<Rightarrow> (Some err, d)
      | Inr u \<Rightarrow>
     (case UpdateByID ev (user_ID u) (u\<lparr>Admin := False\<rparr>) d of
        Inl err \<Rightarrow> (Some err, d)
      | Inr d' \<Rightarrow> (db_refuses ev Op_Stop, d')))))))"

definition Disable :: "env \<Rightarrow> config \<Rightarrow> 'r database \<Rightarrow> string option \<times> 'r database" where
  "Disable ev c d =
     (case db_refuses ev Op_NewPostgresService of
        Some err \<Rightarrow> (Some (''error creating dbservice: '' @ err), d)
      | None \<Rightarrow>
     (case AccountCLIFlags c (UsernameFlag ev) of
        None \<Rightarrow> (Some ''no username set'', d)
      | Some username \<Rightarrow>
     (case ValidateUsername ev username of
        Some err \<Rightarrow> (Some err, d)
      | None \<Rightarrow>
     (case GetLocalAccountByUsername ev username d of
        Inl err \<Rightarrow> (Some err, d)
      | Inr a \<Rightarrow>
     (case GetWhere_account_id ev (account_ID a) d of
        Inl err \<Rightarrow> (Some err, d)
      | Inr u \<Rightarrow>
     (case UpdateByID ev (user_ID u) (u\<lparr>Disabled := True\<rparr>) d of
        Inl err \<Rightarrow> (Some err, d)
      | Inr d' \<Rightarrow> (db_refuses ev Op_Stop, d')))))))"

text \<open>\<^verbatim>\<open>Password\<close> ends with \<^verbatim>\<open>return nil\<close>: unlike the others it does not
  stop the database.\<close>

definition Password :: "env \<Rightarrow> config \<Rightarrow> 'r database \<Rightarrow> string option \<times> 'r database" where
  "Password ev c d =
     (case db_refuses ev Op_NewPostgresService of
        Some err \<Rightarrow> (Some (''error creating dbservice: '' @ err), d)
      | None \<Rightarrow>
     (case AccountCLIFlags c (UsernameFlag ev) of
        None \<Rightarrow> (Some ''no username set'', d)
      | Some username \<Rightarrow>
     (case ValidateUsername ev username of
        Some err \<Rightarrow> (Some err, d)
      | None \<Rightarrow>
     (case AccountCLIFlags c (PasswordFlag ev) of
        None \<Rightarrow> (Some ''no password set'', d)
      | Some password \<Rightarrow>
     (case ValidateNewPassword ev password of
        Some err \<Rightarrow> (Some err, d)
      | None \<Rightarrow>
     (case GetLocalAccountByUsername ev username d of
        Inl err \<Rightarrow> (Some err, d)
      | Inr a \<Rightarrow>
     (case GetWhere_account_id ev (account_ID a) d of
        Inl err \<Rightarrow> (Some err, d)
      | Inr u \<Rightarrow>
     (case GenerateFromPassword ev password of
        Inl err \<Rightarrow> (Some (''error hashing password: '' @ err), d)
      | Inr pw \<Rightarrow>
     (case UpdateByID ev (user_ID u) (u\<lparr>EncryptedPassword := pw\<rparr>) d of
        Inl err \<Rightarrow> (Some err, d)
      | Inr d' \<Rightarrow> (None, d'))))))))))"

text \<open>The shape \<^verbatim>\<open>Confirm\<close>, \<^verbatim>\<open>Promote\<close>, \<^verbatim>\<open>Demote\<close> and
  \<^verbatim>\<open>Disable\<close> share, with what is done to the user as a parameter. The source
  writes the four out; this one is for the proofs that treat them alike.\<close>

definition update_user ::
  "('r user \<Rightarrow> 'r user) \<Rightarrow> env \<Rightarrow> config \<Rightarrow> 'r database \<Rightarrow> string option \<times> 'r database" where
  "update_user g ev c d =
     (case db_refuses ev Op_NewPostgresService of
        Some err \<Rightarrow> (Some (''error creating dbservice: '' @ err), d)
      | None \<Rightarrow>
     (case AccountCLIFlags c (UsernameFlag ev) of
        None \<Rightarrow> (Some ''no username set'', d)
      | Some username \<Rightarrow>
     (case ValidateUsername ev username of
        Some err \<Rightarrow> (Some err, d)
      | None \<Rightarrow>
     (case GetLocalAccountByUsername ev username d of
        Inl err \<Rightarrow> (Some err, d)
      | Inr a \<Rightarrow>
     (case GetWhere_account_id ev (account_ID a) d of
        Inl err \<Rightarrow> (Some err, d)
      | Inr u \<Rightarrow>
     (case UpdateByID ev (user_ID u) (g u) d of
        Inl err \<Rightarrow> (Some err, d)
      | Inr d' \<Rightarrow> (db_refuses ev Op_Stop, d')))))))"

text \<open>That a database differs from another in the rows of one ID at most.\<close>

definition only_row_changed :: "string \<Rightarrow> 'r database \<Rightarrow> 'r database \<Rightarrow> bool" where
  "only_row_changed i d d' =
     (accounts d' = accounts d \<and> length (users d') = length (users d) \<and>
      list_all2 (\<lambda>r r'. user_ID r = i \<or> r' = r) (users d) (users d'))"

text \<open>An environment and a database to run examples with.\<close>

definition example_env :: env where
  "example_env =
     \<lparr>UsernameFlag = ''username'', PasswordFlag = ''password'',
      ValidateUsername = (\<lambda>n. if n = [] then Some ''no username provided'' else None),
      ValidateNewPassword = (\<lambda>n. if length n < 3 then Some ''password too weak'' else None),
      time_Now = 7,
      GenerateFromPassword = (\<lambda>pw. Inr (''hash of '' @ pw)),
      db_refuses = (\<lambda>_. None)\<rparr>"

definition example_user :: "string \<Rightarrow> string \<Rightarrow> unit user" where
  "example_user i a =
     \<lparr>user_ID = i, AccountID = a, Email = [], UnconfirmedEmail = ''new@example.org'',
      EncryptedPassword = ''old'', ConfirmedAt = 0, Approved = False, Admin = False,
      Disabled = False, other = ()\<rparr>"

definition example_database :: "unit database" where
  "example_database =
     \<lparr>accounts = [\<lparr>account_ID = ''A1'', Username = ''alice'', Domain = []\<rparr>,
                  \<lparr>account_ID = ''A2'', Username = ''bob'', Domain = []\<rparr>],
      users = [example_user ''U1'' ''A1'', example_user ''U2'' ''A2''],
      updates = []\<rparr>"

definition example_config :: config where
  "example_config =
     \<lparr>AccountCLIFlags = [''username'' \<mapsto> ''alice'', ''password'' \<mapsto> ''secret'']\<rparr>"

section \<open>The handler of POST /api/v1/statuses/:id/unfavourite (package statuses)\<close>

text \<open>
  What the handler asks of the request comes from functions of other packages,
  so a request is what they return on it: \<^verbatim>\<open>oauth.Authed\<close>,
  \<^verbatim>\<open>apiutil.NegotiateAccept\<close> and \<^verbatim>\<open>c.Param(IDKey)\<close>. The processor's
  \<^verbatim>\<open>StatusUnfave\<close> is a parameter that acts on the processor's state \<open>'p\<close>.
\<close>

record errWithCode =
  Code :: nat
  Error :: string

record 'a request =
  Authed :: "string + 'a"
  NegotiateAccept :: "string + string"
  Param_id :: string

datatype 's body = ErrorBody errWithCode | JSON 's

record 's response =
  status_code :: nat
  response_body :: "'s body"

text \<open>The calls of the processor that can change its state.\<close>

datatype 'a processor_call = Call_StatusUnfave 'a string

text \<open>Modelled from the spec: the constructors of \<^verbatim>\<open>gtserror\<close> and
  \<^verbatim>\<open>apiutil.ErrorHandler\<close> are missing. The handler's own documentation lists the
  responses 400 bad request, 401 unauthorized and 406 not acceptable; the error
  handler answers with the code of the error it is given. It is handed
  \<^verbatim>\<open>InstanceGet\<close>, which reads the instance and changes nothing.\<close>

definition NewErrorUnauthorized :: "string \<Rightarrow> errWithCode" where
  "NewErrorUnauthorized err = \<lparr>Code = 401, Error = err\<rparr>"

definition NewErrorNotAcceptable :: "string \<Rightarrow> errWithCode" where
  "NewErrorNotAcceptable err = \<lparr>Code = 406, Error = err\<rparr>"

definition NewErrorBadRequest :: "string \<Rightarrow> errWithCode" where
  "NewErrorBadRequest err = \<lparr>Code = 400, Error = err\<rparr>"

definition ErrorHandler :: "errWithCode \<Rightarrow> 's response" where
  "ErrorHandler e = \<lparr>status_code = Code e, response_body = ErrorBody e\<rparr>"

text \<open>The handler returns the response it wrote, the processor's state, and the
  state-changing calls it made.\<close>

definition StatusUnfavePOSTHandler ::
  "('a \<Rightarrow> string \<Rightarrow> 'p \<Rightarrow> (errWithCode + 's) \<times> 'p) \<Rightarrow> 'a request \<Rightarrow> 'p
     \<Rightarrow> 's response \<times> 'p \<times> 'a processor_call list" where
  "StatusUnfavePOSTHandler StatusUnfave c p =
     (case Authed c of
        Inl err \<Rightarrow> (ErrorHandler (NewErrorUnauthorized err), p, [])
      | Inr authed \<Rightarrow>
     (case NegotiateAccept c of
        Inl err \<Rightarrow> (ErrorHandler (NewErrorNotAcceptable err), p, [])
      | Inr _ \<Rightarrow>
     (let targetStatusID = Param_id c in
      if targetStatusID = []
      then (ErrorHandler (NewErrorBadRequest ''no status id specified''), p, [])
      else (case StatusUnfave authed targetStatusID p of
              (Inl errWithCode, p') \<Rightarrow>
                (ErrorHandler errWithCode, p', [Call_StatusUnfave authed targetStatusID])
            | (Inr apiStatus, p') \<Rightarrow>
                (\<lparr>status_code = 200, response_body = JSON apiStatus\<rparr>, p',
                 [Call_StatusUnfave authed targetStatusID])))))"

text \<open>A processor to run examples with: its state is the set of the statuses the
  account has faved; unfaving a status that is not faved is an error 404.\<close>

definition example_StatusUnfave ::
  "string \<Rightarrow> string \<Rightarrow> string list \<Rightarrow> (errWithCode + string) \<times> string list" where
  "example_StatusUnfave authed i faves =
     (if i \<in> set faves then (Inr i, removeAll i faves)
      else (Inl \<lparr>Code = 404, Error = ''not found''\<rparr>, faves))"

section \<open>Runs of the processor\<close>

subsection \<open>What every step keeps\<close>

lemma received_append: "received (l @ l') = received l @ received l'"
  by (induction l rule: received.induct) simp_all

lemma client_msgs_append: "client_msgs (ms @ ms') = client_msgs ms @ client_msgs ms'"
  by (induction ms rule: client_msgs.induct) simp_all

lemma federator_msgs_append:
  "federator_msgs (ms @ ms') = federator_msgs ms @ federator_msgs ms'"
  by (induction ms rule: federator_msgs.induct) simp_all

lemmas step_defs = send_fromClientAPI_def send_fromFederator_def Start_def Stop_def
  recv_fromClientAPI_def recv_fromFederator_def recv_stop_def handler_returns_def

lemma step_fifo_client:
  "step h e p = Inr p' \<Longrightarrow>
   client_msgs (received (log p')) @ fromClientAPI p' =
   client_msgs (received (log p)) @ fromClientAPI p @ sent_client [e]"
  by (cases e)
     (auto simp: step_defs received_append client_msgs_append
           split: if_splits list.splits goroutine.splits prod.splits option.splits)

lemma step_fifo_federator:
  "step h e p = Inr p' \<Longrightarrow>
   federator_msgs (received (log p')) @ fromFederator p' =
   federator_msgs (received (log p)) @ fromFederator p @ sent_federator [e]"
  by (cases e)
     (auto simp: step_defs received_append federator_msgs_append
           split: if_splits list.splits goroutine.splits prod.splits option.splits)

lemma sent_client_Cons: "sent_client (e # es) = sent_client [e] @ sent_client es"
  by (cases e) simp_all

lemma sent_federator_Cons: "sent_federator (e # es) = sent_federator [e] @ sent_federator es"
  by (cases e) simp_all

lemma run_fifo_client:
  "run h es p = Inr p' \<Longrightarrow>
   client_msgs (received (log p')) @ fromClientAPI p' =
   client_msgs (received (log p)) @ fromClientAPI p @ sent_client es"
proof (induction es arbitrary: p)
  case Nil
  then show ?case by simp
next
  case (Cons e es)
  from Cons.prems obtain q where q: "step h e p = Inr q" and r: "run h es q = Inr p'"
    by (auto split: sum.splits)
  from Cons.IH [OF r] step_fifo_client [OF q] show ?case
    by (subst sent_client_Cons) simp
qed

lemma run_fifo_federator:
  "run h es p = Inr p' \<Longrightarrow>
   federator_msgs (received (log p')) @ fromFederator p' =
   federator_msgs (received (log p)) @ fromFederator p @ sent_federator es"
proof (induction es arbitrary: p)
  case Nil
  then show ?case by simp
next
  case (Cons e es)
  from Cons.prems obtain q where q: "step h e p = Inr q" and r: "run h es q = Inr p'"
    by (auto split: sum.splits)
  from Cons.IH [OF r] step_fifo_federator [OF q] show ?case
    by (subst sent_federator_Cons) simp
qed

lemma step_cap:
  "step h e p = Inr p' \<Longrightarrow> length (fromClientAPI p) \<le> chan_cap \<Longrightarrow>
   length (fromFederator p) \<le> chan_cap \<Longrightarrow>
   length (fromClientAPI p') \<le> chan_cap \<and> length (fromFederator p') \<le> chan_cap"
  by (cases e)
     (auto simp: step_defs
           split: if_splits list.splits goroutine.splits prod.splits option.splits)

lemma run_cap:
  "run h es p = Inr p' \<Longrightarrow> length (fromClientAPI p) \<le> chan_cap \<Longrightarrow>
   length (fromFederator p) \<le> chan_cap \<Longrightarrow>
   length (fromClientAPI p') \<le> chan_cap \<and> length (fromFederator p') \<le> chan_cap"
proof (induction es arbitrary: p)
  case Nil
  then show ?case by simp
next
  case (Cons e es)
  from Cons.prems(1) obtain q where q: "step h e p = Inr q" and r: "run h es q = Inr p'"
    by (auto split: sum.splits)
  from step_cap [OF q Cons.prems(2,3)] Cons.IH [OF r] show ?case by simp
qed

lemma step_loops:
  "step h e p = Inr p' \<Longrightarrow> length (loops p') = length (loops p) + count_list [e] CallStart"
  by (cases e)
     (auto simp: step_defs
           split: if_splits list.splits goroutine.splits prod.splits option.splits)

lemma run_loops:
  "run h es p = Inr p' \<Longrightarrow> length (loops p') = length (loops p) + count_list es CallStart"
proof (induction es arbitrary: p)
  case Nil
  then show ?case by simp
next
  case (Cons e es)
  from Cons.prems(1) obtain q where q: "step h e p = Inr q" and r: "run h es q = Inr p'"
    by (auto split: sum.splits)
  from step_loops [OF q] Cons.IH [OF r] show ?case by simp
qed

lemma effects_append: "effects h (ms @ ms') w = effects h ms' (effects h ms w)"
  by (induction ms arbitrary: w) simp_all

lemma loops_le1_cases:
  "length (gs :: ('c, 'f) goroutine list) \<le> 1 \<Longrightarrow> gs = [] \<or> (\<exists>g. gs = [g])"
  by (cases gs) auto

lemma step_loops_mono: "step h e p = Inr p' \<Longrightarrow> length (loops p) \<le> length (loops p')"
  using step_loops [of h e p p'] by simp

lemma run_loops_mono: "run h es p = Inr p' \<Longrightarrow> length (loops p) \<le> length (loops p')"
  using run_loops [of h es p p'] by simp

lemma step_effects:
  assumes "step h e p = Inr p'" and "length (loops p') \<le> 1"
  shows "\<exists>new. received (log p') = received (log p) @ new \<and>
           effects h (pending (loops p')) (world p') =
           effects h new (effects h (pending (loops p)) (world p))"
proof -
  from assms step_loops_mono [OF assms(1)] have "length (loops p) \<le> 1" by simp
  then consider "loops p = []" | g where "loops p = [g]"
    using loops_le1_cases by blast
  then show ?thesis
  proof cases
    case 1
    with assms show ?thesis
      by (cases e) (auto simp: step_defs split: if_splits)
  next
    case 2
    with assms show ?thesis
      by (cases e; cases g)
         (auto simp: step_defs received_append
               split: if_splits list.splits prod.splits option.splits)
  qed
qed

lemma run_effects:
  "run h es p = Inr p' \<Longrightarrow> length (loops p') \<le> 1 \<Longrightarrow>
   \<exists>new. received (log p') = received (log p) @ new \<and>
     effects h (pending (loops p')) (world p') =
     effects h new (effects h (pending (loops p)) (world p))"
proof (induction es arbitrary: p)
  case Nil
  then show ?case by simp
next
  case (Cons e es)
  from Cons.prems(1) obtain q where q: "step h e p = Inr q" and r: "run h es q = Inr p'"
    by (auto split: sum.splits)
  from run_loops_mono [OF r] Cons.prems(2) have "length (loops q) \<le> 1" by simp
  from step_effects [OF q this] obtain n1 where
    n1: "received (log q) = received (log p) @ n1"
        "effects h (pending (loops q)) (world q) =
         effects h n1 (effects h (pending (loops p)) (world p))"
    by blast
  from Cons.IH [OF r Cons.prems(2)] obtain n2 where
    n2: "received (log p') = received (log q) @ n2"
        "effects h (pending (loops p')) (world p') =
         effects h n2 (effects h (pending (loops q)) (world q))"
    by blast
  from n1 n2 have "received (log p') = received (log p) @ (n1 @ n2) \<and>
     effects h (pending (loops p')) (world p') =
     effects h (n1 @ n2) (effects h (pending (loops p)) (world p))"
    by (simp add: effects_append)
  then show ?case by blast
qed

lemma step_sequential:
  assumes "step h e p = Inr p'" and "length (loops p') \<le> 1"
    and "sequential (0 < in_flight p') es"
  shows "sequential (0 < in_flight p) (e # es)"
proof -
  from assms step_loops_mono [OF assms(1)] have "length (loops p) \<le> 1" by simp
  then consider "loops p = []" | g where "loops p = [g]"
    using loops_le1_cases by blast
  then show ?thesis
  proof cases
    case 1
    with assms show ?thesis
      by (cases e) (auto simp: step_defs in_flight_def split: if_splits)
  next
    case 2
    with assms show ?thesis
      by (cases e; cases g)
         (auto simp: step_defs in_flight_def
               split: if_splits list.splits prod.splits option.splits)
  qed
qed

lemma run_sequential:
  "run h es p = Inr p' \<Longrightarrow> length (loops p') \<le> 1 \<Longrightarrow> sequential (0 < in_flight p) es"
proof (induction es arbitrary: p)
  case Nil
  then show ?case by simp
next
  case (Cons e es)
  from Cons.prems(1) obtain q where q: "step h e p = Inr q" and r: "run h es q = Inr p'"
    by (auto split: sum.splits)
  from run_loops_mono [OF r] Cons.prems(2) have l: "length (loops q) \<le> 1" by simp
  from step_sequential [OF q l Cons.IH [OF r Cons.prems(2)]] show ?case .
qed

lemma in_flight_le: "in_flight p \<le> length (loops p)"
  by (simp add: in_flight_def)




lemma run_append:
  "run h (es @ es') p = (case run h es p of Inl f \<Rightarrow> Inl f | Inr q \<Rightarrow> run h es' q)"
  by (induction es arbitrary: p) (auto split: sum.splits)

lemma run_send_clients:
  "length (fromClientAPI p) + length cs \<le> chan_cap \<Longrightarrow>
   run h (map SendClient cs) p = Inr (p\<lparr>fromClientAPI := fromClientAPI p @ cs\<rparr>)"
  by (induction cs arbitrary: p) (auto simp: send_fromClientAPI_def)

lemma run_send_federators:
  "length (fromFederator p) + length fs \<le> chan_cap \<Longrightarrow>
   run h (map SendFederator fs) p = Inr (p\<lparr>fromFederator := fromFederator p @ fs\<rparr>)"
  by (induction fs arbitrary: p) (auto simp: send_fromFederator_def)

lemma step_stop_count:
  "step h e p = Inr p' \<Longrightarrow>
   (if stop p then 1 else 0) + count_list [e] CallStop = (if stop p' then 1 else (0::nat))"
  by (cases e)
     (auto simp: step_defs
           split: if_splits list.splits goroutine.splits prod.splits option.splits)

lemma run_stop_count:
  "run h es p = Inr p' \<Longrightarrow>
   (if stop p then 1 else 0) + count_list es CallStop = (if stop p' then 1 else (0::nat))"
proof (induction es arbitrary: p)
  case Nil
  then show ?case by simp
next
  case (Cons e es)
  from Cons.prems(1) obtain q where q: "step h e p = Inr q" and r: "run h es q = Inr p'"
    by (auto split: sum.splits)
  from step_stop_count [OF q] Cons.IH [OF r] show ?case
    by (auto split: if_splits)
qed

lemma streaks_append:
  "run h es p = Inr q \<Longrightarrow> streaks h (es @ es') p c = streaks h es' q (streaks h es p c)"
  by (induction es arbitrary: p c) (auto split: sum.splits)

lemma client_iteration:
  assumes "loops p = [AtSelect]" "fromClientAPI p = []" "fromFederator p \<noteq> []"
  shows "\<exists>q. run h [SendClient c, RecvClient 0, Return 0] p = Inr q \<and>
           loops q = [AtSelect] \<and> fromClientAPI q = [] \<and> fromFederator q = fromFederator p \<and>
           stop q = stop p \<and>
           streaks h [SendClient c, RecvClient 0, Return 0] p (a, 0) = (Suc a, 0)"
  using assms
  by (cases "processFromClientAPI h c (world p)"; cases "fst (processFromClientAPI h c (world p))")
     (auto simp: step_defs chan_cap_def)

lemma federator_iteration:
  assumes "loops p = [AtSelect]" "fromFederator p = []" "fromClientAPI p \<noteq> []"
  shows "\<exists>q. run h [SendFederator f, RecvFederator 0, Return 0] p = Inr q \<and>
           loops q = [AtSelect] \<and> fromFederator q = [] \<and> fromClientAPI q = fromClientAPI p \<and>
           stop q = stop p \<and>
           streaks h [SendFederator f, RecvFederator 0, Return 0] p (0, b) = (0, Suc b)"
  using assms
  by (cases "processFromFederator h f (world p)"; cases "fst (processFromFederator h f (world p))")
     (auto simp: step_defs chan_cap_def)

lemma client_iterations:
  assumes "loops p = [AtSelect]" "fromClientAPI p = []" "fromFederator p \<noteq> []"
  shows "\<exists>q. run h (concat (replicate n [SendClient c, RecvClient 0, Return 0])) p = Inr q \<and>
           streaks h (concat (replicate n [SendClient c, RecvClient 0, Return 0])) p (a, 0) =
             (a + n, 0)"
  using assms
proof (induction n arbitrary: p a)
  case 0
  then show ?case by simp
next
  case (Suc n)
  let ?it = "[SendClient c, RecvClient 0, Return 0]"
  from client_iteration [OF Suc.prems, of h c a] obtain q where
    q: "run h ?it p = Inr q" "loops q = [AtSelect]" "fromClientAPI q = []"
       "fromFederator q = fromFederator p" "streaks h ?it p (a, 0) = (Suc a, 0)"
    by blast
  from q Suc.prems have "fromFederator q \<noteq> []" by simp
  from Suc.IH [OF q(2,3) this, of "Suc a"] obtain r where
    r: "run h (concat (replicate n ?it)) q = Inr r"
       "streaks h (concat (replicate n ?it)) q (Suc a, 0) = (Suc a + n, 0)"
    by blast
  have e: "concat (replicate (Suc n) ?it) = ?it @ concat (replicate n ?it)" by simp
  have 1: "run h (?it @ concat (replicate n ?it)) p = Inr r"
    by (simp only: run_append q(1) sum.case r(1))
  have 2: "streaks h (?it @ concat (replicate n ?it)) p (a, 0) = (a + Suc n, 0)"
    by (simp only: streaks_append [OF q(1)] q(5) r(2)) simp
  show ?case unfolding e using 1 2 by blast
qed

lemma federator_iterations:
  assumes "loops p = [AtSelect]" "fromFederator p = []" "fromClientAPI p \<noteq> []"
  shows "\<exists>q. run h (concat (replicate n [SendFederator f, RecvFederator 0, Return 0])) p = Inr q \<and>
           streaks h (concat (replicate n [SendFederator f, RecvFederator 0, Return 0])) p (0, b) =
             (0, b + n)"
  using assms
proof (induction n arbitrary: p b)
  case 0
  then show ?case by simp
next
  case (Suc n)
  let ?it = "[SendFederator f, RecvFederator 0, Return 0]"
  from federator_iteration [OF Suc.prems, of h f b] obtain q where
    q: "run h ?it p = Inr q" "loops q = [AtSelect]" "fromFederator q = []"
       "fromClientAPI q = fromClientAPI p" "streaks h ?it p (0, b) = (0, Suc b)"
    by blast
  from q Suc.prems have "fromClientAPI q \<noteq> []" by simp
  from Suc.IH [OF q(2,3) this, of "Suc b"] obtain r where
    r: "run h (concat (replicate n ?it)) q = Inr r"
       "streaks h (concat (replicate n ?it)) q (0, Suc b) = (0, Suc b + n)"
    by blast
  have e: "concat (replicate (Suc n) ?it) = ?it @ concat (replicate n ?it)" by simp
  have 1: "run h (?it @ concat (replicate n ?it)) p = Inr r"
    by (simp only: run_append q(1) sum.case r(1))
  have 2: "streaks h (?it @ concat (replicate n ?it)) p (0, b) = (0, b + Suc n)"
    by (simp only: streaks_append [OF q(1)] q(5) r(2)) simp
  show ?case unfolding e using 1 2 by blast
qed

lemma unbounded_client_streak:
  "\<exists>es p. run h es (NewProcessor w) = Inr p \<and> streaks h es (NewProcessor w) (0, 0) = (n, 0)"
proof -
  let ?p0 = "NewProcessor w :: ('a, 'b, 'c, 'd) processor"
  fix c :: 'a and f :: 'b
  let ?pre = "[CallStart, SendFederator f]"
  let ?its = "concat (replicate n [SendClient c, RecvClient 0, Return 0])"
  let ?q = "(?p0\<lparr>loops := [AtSelect], fromFederator := [f]\<rparr>)"
  have pre: "run h ?pre ?p0 = Inr ?q"
    by (simp add: step_defs NewProcessor_def chan_cap_def)
  have "loops ?q = [AtSelect]" "fromClientAPI ?q = []" "fromFederator ?q \<noteq> []"
    by (simp_all add: NewProcessor_def)
  from client_iterations [OF this, of h n c 0] obtain r where
    r: "run h ?its ?q = Inr r" "streaks h ?its ?q (0, 0) = (n, 0)"
    by auto
  have "run h (?pre @ ?its) ?p0 = Inr r"
    by (simp only: run_append pre sum.case r(1))
  moreover have "streaks h ?pre ?p0 (0, 0) = (0, 0)"
    by (simp add: step_defs NewProcessor_def chan_cap_def)
  then have "streaks h (?pre @ ?its) ?p0 (0, 0) = (n, 0)"
    by (simp only: streaks_append [OF pre] r(2))
  ultimately show ?thesis by blast
qed

lemma unbounded_federator_streak:
  "\<exists>es p. run h es (NewProcessor w) = Inr p \<and> streaks h es (NewProcessor w) (0, 0) = (0, n)"
proof -
  let ?p0 = "NewProcessor w :: ('a, 'b, 'c, 'd) processor"
  fix c :: 'a and f :: 'b
  let ?pre = "[CallStart, SendClient c]"
  let ?its = "concat (replicate n [SendFederator f, RecvFederator 0, Return 0])"
  let ?q = "(?p0\<lparr>loops := [AtSelect], fromClientAPI := [c]\<rparr>)"
  have pre: "run h ?pre ?p0 = Inr ?q"
    by (simp add: step_defs NewProcessor_def chan_cap_def)
  have "loops ?q = [AtSelect]" "fromFederator ?q = []" "fromClientAPI ?q \<noteq> []"
    by (simp_all add: NewProcessor_def)
  from federator_iterations [OF this, of h n f 0] obtain r where
    r: "run h ?its ?q = Inr r" "streaks h ?its ?q (0, 0) = (0, n)"
    by auto
  have "run h (?pre @ ?its) ?p0 = Inr r"
    by (simp only: run_append pre sum.case r(1))
  moreover have "streaks h ?pre ?p0 (0, 0) = (0, 0)"
    by (simp add: step_defs NewProcessor_def chan_cap_def)
  then have "streaks h (?pre @ ?its) ?p0 (0, 0) = (0, n)"
    by (simp only: streaks_append [OF pre] r(2))
  ultimately show ?thesis by blast
qed

lemmas example_defs = example_handlers_def example_processor_def NewProcessor_def chan_cap_def

section \<open>The account actions: what a run of one leaves\<close>

lemma Confirm_update_user:
  "Confirm ev =
   update_user (\<lambda>u. u\<lparr>Approved := True, Email := UnconfirmedEmail u, ConfirmedAt := time_Now ev\<rparr>) ev"
  by (intro ext) (simp add: Confirm_def update_user_def)

lemma Promote_update_user: "Promote = update_user (\<lambda>u. u\<lparr>Admin := True\<rparr>)"
  by (intro ext) (simp add: Promote_def update_user_def)

lemma Demote_update_user: "Demote = update_user (\<lambda>u. u\<lparr>Admin := False\<rparr>)"
  by (intro ext) (simp add: Demote_def update_user_def)

lemma Disable_update_user: "Disable = update_user (\<lambda>u. u\<lparr>Disabled := True\<rparr>)"
  by (intro ext) (simp add: Disable_def update_user_def)

lemma only_row_changed_update:
  "only_row_changed i d
     (d\<lparr>users := map (\<lambda>r. if user_ID r = i then u else r) (users d), updates := l\<rparr>)"
  by (simp add: only_row_changed_def list_all2_map2 list_all2_same)

lemma UpdateByID_Inr:
  "UpdateByID ev i u d = Inr d' \<Longrightarrow>
   updates d' = updates d @ [(i, u)] \<and> only_row_changed i d d'"
  using only_row_changed_update [where i = i and d = d and u = u and l = "updates d @ [(i, u)]"]
  by (auto simp: UpdateByID_def split: option.splits)

lemma update_user_success:
  assumes "update_user g ev c d = (None, d')"
  shows "\<exists>username a u. AccountCLIFlags c (UsernameFlag ev) = Some username \<and>
           ValidateUsername ev username = None \<and>
           GetLocalAccountByUsername ev username d = Inr a \<and>
           GetWhere_account_id ev (account_ID a) d = Inr u \<and>
           UpdateByID ev (user_ID u) (g u) d = Inr d' \<and>
           updates d' = updates d @ [(user_ID u, g u)] \<and>
           only_row_changed (user_ID u) d d'"
  using assms
  by (auto simp: update_user_def split: option.splits sum.splits dest: UpdateByID_Inr)

lemma update_user_no_username:
  assumes "AccountCLIFlags c (UsernameFlag ev) = None \<or>
           (\<exists>n e. AccountCLIFlags c (UsernameFlag ev) = Some n \<and> ValidateUsername ev n = Some e)"
  shows "fst (update_user g ev c d) \<noteq> None \<and> snd (update_user g ev c d) = d"
  using assms by (auto simp: update_user_def split: option.splits)

lemma Password_success:
  assumes "Password ev c d = (None, d')"
  shows "\<exists>username a u pw. AccountCLIFlags c (UsernameFlag ev) = Some username \<and>
           ValidateUsername ev username = None \<and>
           GetLocalAccountByUsername ev username d = Inr a \<and>
           GetWhere_account_id ev (account_ID a) d = Inr u \<and>
           UpdateByID ev (user_ID u) (u\<lparr>EncryptedPassword := pw\<rparr>) d = Inr d' \<and>
           updates d' = updates d @ [(user_ID u, u\<lparr>EncryptedPassword := pw\<rparr>)] \<and>
           only_row_changed (user_ID u) d d'"
  using assms
  by (auto simp: Password_def split: option.splits sum.splits dest: UpdateByID_Inr)

lemma Password_no_flags:
  assumes "AccountCLIFlags c (UsernameFlag ev) = None \<or>
           (\<exists>n e. AccountCLIFlags c (UsernameFlag ev) = Some n \<and> ValidateUsername ev n = Some e) \<or>
           AccountCLIFlags c (PasswordFlag ev) = None \<or>
           (\<exists>n e. AccountCLIFlags c (PasswordFlag ev) = Some n \<and> ValidateNewPassword ev n = Some e)"
  shows "fst (Password ev c d) \<noteq> None \<and> snd (Password ev c d) = d"
  using assms by (auto simp: Password_def split: option.splits)




lemmas example_db_defs = example_env_def example_config_def example_database_def
  example_user_def GetLocalAccountByUsername_def GetWhere_account_id_def UpdateByID_def

lemmas handler_defs = StatusUnfavePOSTHandler_def ErrorHandler_def NewErrorUnauthorized_def
  NewErrorNotAcceptable_def NewErrorBadRequest_def

section \<open>The claims\<close>

text \<open>
  Claim C1: calling \<^verbatim>\<open>Stop\<close> with N messages already queued has all N handled
  before the engine is stopped. The code does not do that, and says so itself: the
  comment of \<^verbatim>\<open>Stop\<close> promises to finish handling any remaining messages before
  closing down, and the line below it is a TODO to empty the message buffer properly
  before stopping. \<^verbatim>\<open>Stop\<close> only closes the channel \<^verbatim>\<open>stop\<close>, and the
  \<^verbatim>\<open>select\<close> of the loop may take the closed channel while both buffers hold
  messages. In the run below the processor is started, the messages \<open>cs\<close> and
  \<open>fs\<close> are queued, \<^verbatim>\<open>Stop\<close> is called and the loop takes the case of
  \<^verbatim>\<open>stop\<close>: the engine has stopped, every message is still in its buffer, and
  the log is empty, so no handler has run.
\<close>

theorem Stop_leaves_queued_messages:
  assumes "length cs \<le> chan_cap" and "length fs \<le> chan_cap"
  shows "run h (CallStart # map SendClient cs @ map SendFederator fs @ [CallStop, RecvStop 0])
           (NewProcessor w) =
         Inr \<lparr>fromClientAPI = cs, fromFederator = fs, stop = True, loops = [Exited],
              log = [], world = w\<rparr> \<and>
         stopped \<lparr>fromClientAPI = cs, fromFederator = fs, stop = True, loops = [Exited],
              log = [], world = w\<rparr>"
proof -
  let ?p1 = "Start (NewProcessor w) :: ('a, 'b, 'c, 'd) processor"
  let ?p2 = "?p1\<lparr>fromClientAPI := fromClientAPI ?p1 @ cs\<rparr>"
  let ?p3 = "?p2\<lparr>fromFederator := fromFederator ?p2 @ fs\<rparr>"
  have 1: "run h (map SendClient cs) ?p1 = Inr ?p2"
    using assms(1) by (intro run_send_clients) (simp add: Start_def NewProcessor_def)
  have 2: "run h (map SendFederator fs) ?p2 = Inr ?p3"
    using assms(2) by (intro run_send_federators) (simp add: Start_def NewProcessor_def)
  have 3: "run h [CallStop, RecvStop 0] ?p3 =
             Inr \<lparr>fromClientAPI = cs, fromFederator = fs, stop = True, loops = [Exited],
                  log = [], world = w\<rparr>"
    by (simp add: step_defs NewProcessor_def)
  have 4: "run h (map SendClient cs @ map SendFederator fs @ [CallStop, RecvStop 0]) ?p1 =
             Inr \<lparr>fromClientAPI = cs, fromFederator = fs, stop = True, loops = [Exited],
                  log = [], world = w\<rparr>"
    by (simp only: run_append 1 2 3 sum.case)
  have "run h (CallStart # map SendClient cs @ map SendFederator fs @ [CallStop, RecvStop 0])
          (NewProcessor w) =
        run h (map SendClient cs @ map SendFederator fs @ [CallStop, RecvStop 0]) ?p1"
    by simp
  with 4 show ?thesis
    by (simp only: stopped_def) simp
qed

text \<open>The run with two messages from the client API and one from the federator.\<close>

theorem Stop_leaves_queued_messages_witness:
  "run example_handlers
     [CallStart, SendClient (1, 1), SendClient (2, 1), SendFederator (3, 1), CallStop, RecvStop 0]
     example_processor =
   Inr \<lparr>fromClientAPI = [(1, 1), (2, 1)], fromFederator = [(3, 1)], stop = True,
        loops = [Exited], log = [], world = []\<rparr>"
  using Stop_leaves_queued_messages [of "[(1, 1), (2, 1)]" "[(3, 1)]" example_handlers "[]"]
  by (simp add: example_defs step_defs)

text \<open>
  Claim C2 says that a second \<^verbatim>\<open>Stop\<close>, and a \<^verbatim>\<open>Start\<close> of a running engine,
  are no-ops that neither panic nor add a second dispatch loop. The processor keeps
  no state of its life cycle: the second \<^verbatim>\<open>Stop\<close> closes a closed channel, which
  panics, and the second \<^verbatim>\<open>Start\<close> spawns a second goroutine on the same
  channels.
\<close>

theorem repeated_Stop_and_Start_counterexample:
  "run example_handlers [CallStart, CallStop, CallStop] example_processor = Inl Panic \<and>
   map_sum id loops (run example_handlers [CallStart, CallStart] example_processor) =
     Inr [AtSelect, AtSelect]"
  by (simp add: example_defs step_defs)

text \<open>
  Claim C2, as amended: in every run of a new processor each call of \<^verbatim>\<open>Start\<close>
  returns (it never blocks or panics) and adds one dispatch goroutine, so there are
  as many as there were calls; \<^verbatim>\<open>Stop\<close> has returned at most once, namely iff
  the channel \<^verbatim>\<open>stop\<close> is closed; a further \<^verbatim>\<open>Start\<close> adds one more
  goroutine at the select and changes nothing else; a further \<^verbatim>\<open>Stop\<close> closes
  the channel and changes nothing else when the channel is open, and panics when it
  is closed.
\<close>

theorem Start_and_Stop_calls:
  assumes "run h es (NewProcessor w) = Inr p"
  shows "length (loops p) = count_list es CallStart \<and>
         count_list es CallStop = (if stop p then 1 else 0) \<and>
         run h (es @ [CallStart]) (NewProcessor w) = Inr (p\<lparr>loops := loops p @ [AtSelect]\<rparr>) \<and>
         run h (es @ [CallStop]) (NewProcessor w) =
           (if stop p then Inl Panic else Inr (p\<lparr>stop := True\<rparr>))"
proof -
  have "length (loops p) = count_list es CallStart"
    using run_loops [OF assms] by (simp add: NewProcessor_def)
  moreover have "count_list es CallStop = (if stop p then 1 else 0)"
    using run_stop_count [OF assms] by (simp add: NewProcessor_def)
  moreover have "run h (es @ [CallStart]) (NewProcessor w) = Inr (p\<lparr>loops := loops p @ [AtSelect]\<rparr>)"
    by (simp add: run_append assms Start_def)
  moreover have "run h (es @ [CallStop]) (NewProcessor w) =
           (if stop p then Inl Panic else Inr (p\<lparr>stop := True\<rparr>))"
    by (simp add: run_append assms Stop_def)
  ultimately show ?thesis by blast
qed

text \<open>Two calls of \<^verbatim>\<open>Start\<close> and one of \<^verbatim>\<open>Stop\<close>, and then one more of
  either.\<close>

theorem Start_and_Stop_calls_witness:
  "run example_handlers [CallStart, CallStart, CallStop] example_processor =
     Inr (example_processor\<lparr>loops := [AtSelect, AtSelect], stop := True\<rparr>) \<and>
   run example_handlers ([CallStart, CallStart, CallStop] @ [CallStart]) example_processor =
     Inr (example_processor\<lparr>loops := [AtSelect, AtSelect, AtSelect], stop := True\<rparr>) \<and>
   run example_handlers ([CallStart, CallStart, CallStop] @ [CallStop]) example_processor =
     Inl Panic"
proof -
  have r: "run example_handlers [CallStart, CallStart, CallStop] (NewProcessor []) =
     Inr (example_processor\<lparr>loops := [AtSelect, AtSelect], stop := True\<rparr>)"
    by (simp add: example_defs step_defs)
  from Start_and_Stop_calls [OF r] r show ?thesis
    by (simp add: example_processor_def)
qed

text \<open>
  Claim C3 says that two messages of the same actor are handled in the order they
  were queued in, whichever of the two channels each went to. The loop has no lock
  by actor, and its \<^verbatim>\<open>select\<close> takes either channel when both hold a message:
  below, actor 7 queues \<open>(7, 1)\<close> from the client API and then \<open>(7, 2)\<close> from
  the federator; one dispatch loop receives and handles the second before the first,
  and the world the handlers leave shows that order.
\<close>

theorem cross_queue_order_counterexample:
  "map_sum id (\<lambda>p. (received (log p), world p))
     (run example_handlers
        [CallStart, SendClient (7, 1), SendFederator (7, 2),
         RecvFederator 0, Return 0, RecvClient 0, Return 0]
        example_processor) =
   Inr ([FederatorMsg (7, 2), ClientMsg (7, 1)], [FederatorMsg (7, 2), ClientMsg (7, 1)]) \<and>
   actorID (ClientMsg (7, 1)) = actorID (FederatorMsg (7, 2))"
  by (simp add: example_defs step_defs actorID_def)

text \<open>
  Claim C3, as amended: the messages of one actor that were sent to the same channel
  are received in the order they were sent in, none lost and none twice: those sent
  are those received so far followed by those still in the buffer (for each channel;
  \<open>actor\<close> is any function giving the actor of a message). When \<^verbatim>\<open>Start\<close>
  was called at most once, no two handlers overlap: at most one is running, every
  reception in the run is followed by the return of its handler before the next
  reception, and the world is what the handlers of the received messages leave when
  run one after the other in the order of reception (the handler still running
  included). Between the two channels no order holds.
\<close>

theorem same_queue_order:
  assumes "run h es (NewProcessor w) = Inr p"
  shows "filter (\<lambda>m. actor (ClientMsg m) = a) (sent_client es) =
           filter (\<lambda>m. actor (ClientMsg m) = a) (client_msgs (received (log p))) @
           filter (\<lambda>m. actor (ClientMsg m) = a) (fromClientAPI p) \<and>
         filter (\<lambda>m. actor (FederatorMsg m) = a) (sent_federator es) =
           filter (\<lambda>m. actor (FederatorMsg m) = a) (federator_msgs (received (log p))) @
           filter (\<lambda>m. actor (FederatorMsg m) = a) (fromFederator p) \<and>
         (count_list es CallStart \<le> 1 \<longrightarrow>
            in_flight p \<le> 1 \<and> sequential False es \<and>
            effects h (pending (loops p)) (world p) = effects h (received (log p)) w)"
proof -
  have c: "sent_client es = client_msgs (received (log p)) @ fromClientAPI p"
    using run_fifo_client [OF assms] by (simp add: NewProcessor_def)
  have f: "sent_federator es = federator_msgs (received (log p)) @ fromFederator p"
    using run_fifo_federator [OF assms] by (simp add: NewProcessor_def)
  have l: "length (loops p) = count_list es CallStart"
    using run_loops [OF assms] by (simp add: NewProcessor_def)
  have s: "in_flight p \<le> 1 \<and> sequential False es \<and>
           effects h (pending (loops p)) (world p) = effects h (received (log p)) w"
    if "count_list es CallStart \<le> 1"
  proof -
    from that l have l1: "length (loops p) \<le> 1" by simp
    with in_flight_le [of p] have "in_flight p \<le> 1" by simp
    moreover from run_sequential [OF assms l1] have "sequential False es"
      by (simp add: NewProcessor_def in_flight_def)
    moreover from run_effects [OF assms l1]
    have "effects h (pending (loops p)) (world p) = effects h (received (log p)) w"
      by (auto simp: NewProcessor_def)
    ultimately show ?thesis by blast
  qed
  from c f s show ?thesis
    by (simp only: filter_append) blast
qed

text \<open>Actor 7 sends two messages from the client API, actor 8 one from the
  federator in between; the loop is inside the handler of the last one.\<close>

theorem same_queue_order_witness:
  "run example_handlers
     [CallStart, SendClient (7, 1), SendFederator (8, 1), SendClient (7, 2),
      RecvClient 0, Return 0, RecvFederator 0, Return 0, RecvClient 0]
     example_processor =
   Inr \<lparr>fromClientAPI = [], fromFederator = [], stop = False,
        loops = [Processing (ClientMsg (7, 2))],
        log = [LogInfof (ClientMsg (7, 1)), LogInfof (FederatorMsg (8, 1)),
               LogInfof (ClientMsg (7, 2))],
        world = [ClientMsg (7, 1), FederatorMsg (8, 1)]\<rparr> \<and>
   filter (\<lambda>m. actorID (ClientMsg m) = 7)
     (sent_client [CallStart, SendClient (7, 1), SendFederator (8, 1), SendClient (7, 2),
      RecvClient 0, Return 0, RecvFederator 0, Return 0, RecvClient 0]) = [(7, 1), (7, 2)] \<and>
   effects example_handlers [ClientMsg (7, 2)] [ClientMsg (7, 1), FederatorMsg (8, 1)] =
     [ClientMsg (7, 1), FederatorMsg (8, 1), ClientMsg (7, 2)]"
proof -
  let ?es = "[CallStart, SendClient (7, 1), SendFederator (8, 1), SendClient (7, 2),
      RecvClient 0, Return 0, RecvFederator 0, Return 0, RecvClient 0]"
  have r: "run example_handlers ?es (NewProcessor []) =
   Inr \<lparr>fromClientAPI = [], fromFederator = [], stop = False,
        loops = [Processing (ClientMsg (7, 2))],
        log = [LogInfof (ClientMsg (7, 1)), LogInfof (FederatorMsg (8, 1)),
               LogInfof (ClientMsg (7, 2))],
        world = [ClientMsg (7, 1), FederatorMsg (8, 1)]\<rparr>"
    by (simp add: example_defs step_defs)
  from same_queue_order [OF r, of actorID 7] r show ?thesis
    by (simp add: example_processor_def actorID_def example_handlers_def)
qed

text \<open>
  Claim C4: each of the two inbound queues is a first-in, first-out queue bounded
  independently at exactly 100; a submission to a queue that holds 100 messages
  blocks the producer until space frees, and no message is dropped at enqueue. In
  every run of a new processor: neither buffer ever holds more than 100 messages;
  the messages sent to a channel are, in order, those received from it so far
  followed by those in its buffer, so none is lost, repeated or overtaken; a further
  send to a channel blocks when its buffer holds 100 and otherwise appends the
  message, whatever the other buffer holds.
\<close>

theorem queues_bounded_fifo:
  assumes "run h es (NewProcessor w) = Inr p"
  shows "length (fromClientAPI p) \<le> 100 \<and> length (fromFederator p) \<le> 100 \<and>
         sent_client es = client_msgs (received (log p)) @ fromClientAPI p \<and>
         sent_federator es = federator_msgs (received (log p)) @ fromFederator p \<and>
         run h (es @ [SendClient c]) (NewProcessor w) =
           (if length (fromClientAPI p) = 100 then Inl Blocked
            else Inr (p\<lparr>fromClientAPI := fromClientAPI p @ [c]\<rparr>)) \<and>
         run h (es @ [SendFederator f]) (NewProcessor w) =
           (if length (fromFederator p) = 100 then Inl Blocked
            else Inr (p\<lparr>fromFederator := fromFederator p @ [f]\<rparr>))"
proof -
  have b: "length (fromClientAPI p) \<le> 100 \<and> length (fromFederator p) \<le> 100"
    using run_cap [OF assms] by (simp add: NewProcessor_def chan_cap_def)
  have c: "sent_client es = client_msgs (received (log p)) @ fromClientAPI p"
    using run_fifo_client [OF assms] by (simp add: NewProcessor_def)
  have f: "sent_federator es = federator_msgs (received (log p)) @ fromFederator p"
    using run_fifo_federator [OF assms] by (simp add: NewProcessor_def)
  have sc: "run h (es @ [SendClient c]) (NewProcessor w) =
           (if length (fromClientAPI p) = 100 then Inl Blocked
            else Inr (p\<lparr>fromClientAPI := fromClientAPI p @ [c]\<rparr>))"
    using b by (auto simp: run_append assms send_fromClientAPI_def chan_cap_def)
  have sf: "run h (es @ [SendFederator f]) (NewProcessor w) =
           (if length (fromFederator p) = 100 then Inl Blocked
            else Inr (p\<lparr>fromFederator := fromFederator p @ [f]\<rparr>))"
    using b by (auto simp: run_append assms send_fromFederator_def chan_cap_def)
  from b c f sc sf show ?thesis by blast
qed

text \<open>A hundred sends to the client channel of a new processor go through, the
  next one to it blocks, and a send to the federator channel still goes through.\<close>

theorem queues_bounded_fifo_witness:
  "run example_handlers (map SendClient (replicate 100 (1, 1))) example_processor =
     Inr (example_processor\<lparr>fromClientAPI := replicate 100 (1, 1)\<rparr>) \<and>
   run example_handlers (map SendClient (replicate 100 (1, 1)) @ [SendClient (2, 2)])
     example_processor = Inl Blocked \<and>
   run example_handlers (map SendClient (replicate 100 (1, 1)) @ [SendFederator (2, 2)])
     example_processor =
     Inr (example_processor\<lparr>fromClientAPI := replicate 100 (1, 1), fromFederator := [(2, 2)]\<rparr>)"
proof -
  have r: "run example_handlers (map SendClient (replicate 100 (1, 1))) (NewProcessor []) =
     Inr (example_processor\<lparr>fromClientAPI := replicate 100 (1, 1)\<rparr>)"
    using run_send_clients [of "NewProcessor []" "replicate 100 (1, 1)" example_handlers]
    by (simp add: example_processor_def NewProcessor_def chan_cap_def)
  from queues_bounded_fifo [OF r, of "(2, 2)" "(2, 2)"] r show ?thesis
    by (simp add: example_processor_def NewProcessor_def)
qed



text \<open>
  Claim C6 says that there is a constant K such that in every run at most K
  messages in a row are taken from one queue while the other holds a message. The
  loop leaves the choice to the \<^verbatim>\<open>select\<close>, which may take the same ready channel
  any number of times in a row; no such K exists.
\<close>

theorem no_fairness_bound_counterexample:
  "\<not> (\<exists>K. \<forall>es p. run example_handlers es example_processor = Inr p \<longrightarrow>
          fst (streaks example_handlers es example_processor (0, 0)) \<le> K \<and>
          snd (streaks example_handlers es example_processor (0, 0)) \<le> K)"
proof
  assume "\<exists>K. \<forall>es p. run example_handlers es example_processor = Inr p \<longrightarrow>
          fst (streaks example_handlers es example_processor (0, 0)) \<le> K \<and>
          snd (streaks example_handlers es example_processor (0, 0)) \<le> K"
  then obtain K where K: "\<And>es p. run example_handlers es example_processor = Inr p \<Longrightarrow>
          fst (streaks example_handlers es example_processor (0, 0)) \<le> K"
    by blast
  from unbounded_client_streak [of example_handlers "[]" "Suc K"] obtain es p where
    "run example_handlers es example_processor = Inr p"
    "streaks example_handlers es example_processor (0, 0) = (Suc K, 0)"
    by (auto simp: example_processor_def)
  with K [of es p] show False by simp
qed

text \<open>
  Claim C6, as amended: the choice between the two queues is that of the
  \<^verbatim>\<open>select\<close>. For every number \<open>n\<close> there is a run in which \<open>n\<close> messages in a
  row are taken from the client queue while the federator queue holds a message,
  and one in which they are taken from the federator queue while the client queue
  holds one. What does hold is that neither queue is ever shut out: whenever a
  dispatch goroutine waits in the select, a message in either buffer can be taken
  next, whatever the other buffer holds.
\<close>

theorem select_takes_either_queue:
  "(\<exists>es p. run h es (NewProcessor w) = Inr p \<and> streaks h es (NewProcessor w) (0, 0) = (n, 0)) \<and>
   (\<exists>es p. run h es (NewProcessor w) = Inr p \<and> streaks h es (NewProcessor w) (0, 0) = (0, n)) \<and>
   (i < length (loops q) \<and> loops q ! i = AtSelect \<longrightarrow>
      (fromClientAPI q \<noteq> [] \<longrightarrow> (\<exists>q'. step h (RecvClient i) q = Inr q')) \<and>
      (fromFederator q \<noteq> [] \<longrightarrow> (\<exists>q'. step h (RecvFederator i) q = Inr q')))"
proof -
  have "\<exists>q'. step h (RecvClient i) q = Inr q'"
    if "i < length (loops q)" "loops q ! i = AtSelect" "fromClientAPI q \<noteq> []"
    using that by (cases "fromClientAPI q") (simp_all add: recv_fromClientAPI_def)
  moreover have "\<exists>q'. step h (RecvFederator i) q = Inr q'"
    if "i < length (loops q)" "loops q ! i = AtSelect" "fromFederator q \<noteq> []"
    using that by (cases "fromFederator q") (simp_all add: recv_fromFederator_def)
  ultimately show ?thesis
    using unbounded_client_streak [of h w n] unbounded_federator_streak [of h w n]
    by blast
qed

text \<open>Two messages in a row from the client queue while the federator queue holds
  one; then both queues hold a message and either can be taken next.\<close>

theorem select_takes_either_queue_witness:
  "run example_handlers
     [CallStart, SendFederator (9, 9), SendClient (1, 1), RecvClient 0, Return 0,
      SendClient (1, 2), RecvClient 0, Return 0, SendClient (1, 3)]
     example_processor =
   Inr \<lparr>fromClientAPI = [(1, 3)], fromFederator = [(9, 9)], stop = False, loops = [AtSelect],
        log = [LogInfof (ClientMsg (1, 1)), LogInfof (ClientMsg (1, 2))],
        world = [ClientMsg (1, 1), ClientMsg (1, 2)]\<rparr> \<and>
   streaks example_handlers
     [CallStart, SendFederator (9, 9), SendClient (1, 1), RecvClient 0, Return 0,
      SendClient (1, 2), RecvClient 0, Return 0, SendClient (1, 3)]
     example_processor (0, 0) = (2, 0) \<and>
   (\<exists>q'. step example_handlers (RecvClient 0)
     \<lparr>fromClientAPI = [(1, 3)], fromFederator = [(9, 9)], stop = False, loops = [AtSelect],
      log = [LogInfof (ClientMsg (1, 1)), LogInfof (ClientMsg (1, 2))],
      world = [ClientMsg (1, 1), ClientMsg (1, 2)]\<rparr> = Inr q') \<and>
   (\<exists>q'. step example_handlers (RecvFederator 0)
     \<lparr>fromClientAPI = [(1, 3)], fromFederator = [(9, 9)], stop = False, loops = [AtSelect],
      log = [LogInfof (ClientMsg (1, 1)), LogInfof (ClientMsg (1, 2))],
      world = [ClientMsg (1, 1), ClientMsg (1, 2)]\<rparr> = Inr q')"
proof -
  let ?q = "\<lparr>fromClientAPI = [(1, 3)], fromFederator = [(9, 9)], stop = False,
      loops = [AtSelect],
      log = [LogInfof (ClientMsg (1, 1)), LogInfof (ClientMsg (1, 2))],
      world = [ClientMsg (1, 1), ClientMsg (1, 2)]\<rparr>
      :: (nat \<times> nat, nat \<times> nat, string, (nat \<times> nat, nat \<times> nat) msg list) processor"
  have q: "0 < length (loops ?q) \<and> loops ?q ! 0 = AtSelect" "fromClientAPI ?q \<noteq> []"
    "fromFederator ?q \<noteq> []"
    by simp_all
  from select_takes_either_queue [of example_handlers "[]" 2 0 ?q] q
  have "(\<exists>q'. step example_handlers (RecvClient 0) ?q = Inr q') \<and>
        (\<exists>q'. step example_handlers (RecvFederator 0) ?q = Inr q')"
    by blast
  moreover have "run example_handlers
     [CallStart, SendFederator (9, 9), SendClient (1, 1), RecvClient 0, Return 0,
      SendClient (1, 2), RecvClient 0, Return 0, SendClient (1, 3)]
     example_processor = Inr ?q"
    by (simp add: example_defs step_defs)
  moreover have "streaks example_handlers
     [CallStart, SendFederator (9, 9), SendClient (1, 1), RecvClient 0, Return 0,
      SendClient (1, 2), RecvClient 0, Return 0, SendClient (1, 3)]
     example_processor (0, 0) = (2, 0)"
    by (simp add: example_defs step_defs)
  ultimately show ?thesis by blast
qed

text \<open>
  Claim C7: each of the actions \<^verbatim>\<open>Confirm\<close>, \<^verbatim>\<open>Promote\<close>, \<^verbatim>\<open>Demote\<close>,
  \<^verbatim>\<open>Disable\<close> and \<^verbatim>\<open>Password\<close> is a single write of one record. When the
  action returns nil, the username flag was set and valid, the account and its user
  were found, the database it leaves is the result of one call of
  \<^verbatim>\<open>UpdateByID\<close> on that user's ID, exactly one update was issued, and no row of
  another ID and no account has changed. When the username flag is missing or its
  validation fails (and for \<^verbatim>\<open>Password\<close> also when the password flag is missing
  or the password is refused), the action returns an error and the database is as it
  was: nothing was written.
\<close>

theorem account_action_writes_one_record:
  assumes "A \<in> {Confirm, Promote, Demote, Disable, Password}"
  shows "(A ev c d = (None, d') \<longrightarrow>
            (\<exists>username a u u'. AccountCLIFlags c (UsernameFlag ev) = Some username \<and>
               ValidateUsername ev username = None \<and>
               GetLocalAccountByUsername ev username d = Inr a \<and>
               GetWhere_account_id ev (account_ID a) d = Inr u \<and>
               UpdateByID ev (user_ID u) u' d = Inr d' \<and>
               updates d' = updates d @ [(user_ID u, u')] \<and>
               only_row_changed (user_ID u) d d')) \<and>
         (AccountCLIFlags c (UsernameFlag ev) = None \<or>
          (\<exists>n e. AccountCLIFlags c (UsernameFlag ev) = Some n \<and> ValidateUsername ev n = Some e)
          \<longrightarrow> fst (A ev c d) \<noteq> None \<and> snd (A ev c d) = d) \<and>
         (AccountCLIFlags c (PasswordFlag ev) = None \<or>
          (\<exists>n e. AccountCLIFlags c (PasswordFlag ev) = Some n \<and> ValidateNewPassword ev n = Some e)
          \<longrightarrow> fst (Password ev c d) \<noteq> None \<and> snd (Password ev c d) = d)"
proof -
  have pw: "AccountCLIFlags c (PasswordFlag ev) = None \<or>
          (\<exists>n e. AccountCLIFlags c (PasswordFlag ev) = Some n \<and> ValidateNewPassword ev n = Some e)
          \<longrightarrow> fst (Password ev c d) \<noteq> None \<and> snd (Password ev c d) = d"
    using Password_no_flags [of c ev d] by blast
  from assms consider g where "A ev = update_user g ev" | "A = Password"
    using Confirm_update_user [of ev]
    by (auto simp: Promote_update_user Demote_update_user Disable_update_user)
  then show ?thesis
  proof cases
    case 1
    with update_user_success [of g ev c d d'] update_user_no_username [of c ev g d] pw
    show ?thesis by (simp only:) blast
  next
    case 2
    with Password_success [of ev c d d'] Password_no_flags [of c ev d]
    show ?thesis by (simp only:) blast
  qed
qed

text \<open>Promoting alice in a database of two users; the same without the flag; and
  a password that is refused.\<close>

theorem account_action_writes_one_record_witness:
  "Promote example_env example_config example_database =
     (None, example_database
        \<lparr>users := [(example_user ''U1'' ''A1'')\<lparr>Admin := True\<rparr>, example_user ''U2'' ''A2''],
         updates := [(''U1'', (example_user ''U1'' ''A1'')\<lparr>Admin := True\<rparr>)]\<rparr>) \<and>
   only_row_changed ''U1'' example_database
     (example_database
        \<lparr>users := [(example_user ''U1'' ''A1'')\<lparr>Admin := True\<rparr>, example_user ''U2'' ''A2''],
         updates := [(''U1'', (example_user ''U1'' ''A1'')\<lparr>Admin := True\<rparr>)]\<rparr>) \<and>
   Promote example_env \<lparr>AccountCLIFlags = Map.empty\<rparr> example_database =
     (Some ''no username set'', example_database) \<and>
   Password example_env \<lparr>AccountCLIFlags = [''username'' \<mapsto> ''alice'', ''password'' \<mapsto> ''pw'']\<rparr>
     example_database = (Some ''password too weak'', example_database)"
proof -
  let ?d' = "example_database
        \<lparr>users := [(example_user ''U1'' ''A1'')\<lparr>Admin := True\<rparr>, example_user ''U2'' ''A2''],
         updates := [(''U1'', (example_user ''U1'' ''A1'')\<lparr>Admin := True\<rparr>)]\<rparr>"
  have a: "Promote \<in> {Confirm, Promote, Demote, Disable, Password}" by simp
  have r: "Promote example_env example_config example_database = (None, ?d')"
    by (simp add: Promote_def example_db_defs)
  have g: "GetWhere_account_id example_env ''A1'' example_database = Inr (example_user ''U1'' ''A1'')"
    by (simp add: example_db_defs)
  have l: "GetLocalAccountByUsername example_env ''alice'' (example_database :: unit database) =
             Inr \<lparr>account_ID = ''A1'', Username = ''alice'', Domain = []\<rparr>"
    by (simp add: example_db_defs)
  have f: "AccountCLIFlags example_config (UsernameFlag example_env) = Some ''alice''"
    by (simp add: example_db_defs)
  from account_action_writes_one_record [OF a, of example_env example_config example_database ?d'] r
  obtain username a u where
    w: "AccountCLIFlags example_config (UsernameFlag example_env) = Some username"
       "GetLocalAccountByUsername example_env username example_database = Inr a"
       "GetWhere_account_id example_env (account_ID a) example_database = Inr u"
       "only_row_changed (user_ID u) example_database ?d'"
    by blast
  from w(1) f have "username = ''alice''" by simp
  with w(2) l have "account_ID a = ''A1''" by auto
  with w(3) g have "user_ID u = ''U1''" by (auto simp: example_user_def)
  with w(4) have o: "only_row_changed ''U1'' example_database ?d'" by simp
  have n: "Promote example_env \<lparr>AccountCLIFlags = Map.empty\<rparr> example_database =
     (Some ''no username set'', example_database)"
    by (simp add: Promote_def example_db_defs)
  have p: "Password example_env
     \<lparr>AccountCLIFlags = [''username'' \<mapsto> ''alice'', ''password'' \<mapsto> ''pw'']\<rparr>
     example_database = (Some ''password too weak'', example_database)"
    by (simp add: Password_def example_db_defs)
  from r o n p show ?thesis by blast
qed

text \<open>
  Claim C8 says that at most one handler is ever running. That holds for one
  dispatch loop; but \<^verbatim>\<open>Start\<close> spawns a loop at every call, and after two calls
  two handlers run at the same time.
\<close>

theorem two_loops_overlap_counterexample:
  "map_sum id in_flight
     (run example_handlers
        [CallStart, CallStart, SendClient (1, 1), SendFederator (2, 1),
         RecvClient 0, RecvFederator 1]
        example_processor) = Inr 2 \<and>
   \<not> sequential False
        [CallStart, CallStart, SendClient (1, 1), SendFederator (2, 1),
         RecvClient 0, RecvFederator 1]"
  by (simp add: example_defs step_defs in_flight_def)

text \<open>
  Claim C8, as amended: a dispatch loop is a sequential consumer, so in every run of
  a new processor there are never more handlers running than there were calls of
  \<^verbatim>\<open>Start\<close>; and when \<^verbatim>\<open>Start\<close> was called at most once, at most one handler
  is running, and every message received, from either channel, is followed by the
  return of its handler before the next message is received.
\<close>

theorem one_handler_per_loop:
  assumes "run h es (NewProcessor w) = Inr p"
  shows "in_flight p \<le> count_list es CallStart \<and>
         (count_list es CallStart \<le> 1 \<longrightarrow> in_flight p \<le> 1 \<and> sequential False es)"
proof -
  have l: "length (loops p) = count_list es CallStart"
    using run_loops [OF assms] by (simp add: NewProcessor_def)
  with in_flight_le [of p] have 1: "in_flight p \<le> count_list es CallStart" by simp
  have "sequential False es" if "count_list es CallStart \<le> 1"
  proof -
    from that l have "length (loops p) \<le> 1" by simp
    from run_sequential [OF assms this] show ?thesis
      by (simp add: NewProcessor_def in_flight_def)
  qed
  with 1 show ?thesis by auto
qed

text \<open>One loop handles a message of the federator and is inside the handler of one
  of the client API.\<close>

theorem one_handler_per_loop_witness:
  "run example_handlers
     [CallStart, SendClient (1, 1), SendFederator (2, 1), RecvFederator 0, Return 0,
      RecvClient 0]
     example_processor =
   Inr \<lparr>fromClientAPI = [], fromFederator = [], stop = False,
        loops = [Processing (ClientMsg (1, 1))],
        log = [LogInfof (FederatorMsg (2, 1)), LogInfof (ClientMsg (1, 1))],
        world = [FederatorMsg (2, 1)]\<rparr> \<and>
   in_flight \<lparr>fromClientAPI = [], fromFederator = [], stop = False,
        loops = [Processing (ClientMsg (1, 1))],
        log = [LogInfof (FederatorMsg (2, 1)), LogInfof (ClientMsg (1, 1))],
        world = [FederatorMsg (2, 1)]\<rparr> = 1 \<and>
   sequential False
     [CallStart, SendClient (1, 1), SendFederator (2, 1), RecvFederator 0, Return 0,
      RecvClient 0]"
proof -
  have r: "run example_handlers
     [CallStart, SendClient (1, 1), SendFederator (2, 1), RecvFederator 0, Return 0,
      RecvClient 0]
     (NewProcessor []) =
   Inr \<lparr>fromClientAPI = [], fromFederator = [], stop = False,
        loops = [Processing (ClientMsg (1, 1))],
        log = [LogInfof (FederatorMsg (2, 1)), LogInfof (ClientMsg (1, 1))],
        world = [FederatorMsg (2, 1)]\<rparr>"
    by (simp add: example_defs step_defs)
  from one_handler_per_loop [OF r] r show ?thesis
    by (simp add: example_processor_def in_flight_def)
qed

text \<open>
  Claim C9: the handler calls the processor's \<^verbatim>\<open>StatusUnfave\<close> only when the
  authentication, the content negotiation and a non-empty status ID have all
  succeeded; on a failure of one of them it answers 401, 406 or 400 in that order of
  checks, makes no state-changing call and leaves the processor's state as it was.
  When all three succeed it makes exactly the one call, with the authenticated
  account and the ID of the path.
\<close>

theorem StatusUnfave_only_after_checks:
  "(\<forall>err. Authed c = Inl err \<longrightarrow>
      StatusUnfavePOSTHandler SU c p = (ErrorHandler (NewErrorUnauthorized err), p, []) \<and>
      status_code (fst (StatusUnfavePOSTHandler SU c p)) = 401) \<and>
   (\<forall>authed err. Authed c = Inr authed \<and> NegotiateAccept c = Inl err \<longrightarrow>
      StatusUnfavePOSTHandler SU c p = (ErrorHandler (NewErrorNotAcceptable err), p, []) \<and>
      status_code (fst (StatusUnfavePOSTHandler SU c p)) = 406) \<and>
   (\<forall>authed accept. Authed c = Inr authed \<and> NegotiateAccept c = Inr accept \<and> Param_id c = [] \<longrightarrow>
      StatusUnfavePOSTHandler SU c p =
        (ErrorHandler (NewErrorBadRequest ''no status id specified''), p, []) \<and>
      status_code (fst (StatusUnfavePOSTHandler SU c p)) = 400) \<and>
   (\<forall>authed accept. Authed c = Inr authed \<and> NegotiateAccept c = Inr accept \<and> Param_id c \<noteq> [] \<longrightarrow>
      snd (snd (StatusUnfavePOSTHandler SU c p)) = [Call_StatusUnfave authed (Param_id c)] \<and>
      fst (snd (StatusUnfavePOSTHandler SU c p)) = snd (SU authed (Param_id c) p)) \<and>
   (snd (snd (StatusUnfavePOSTHandler SU c p)) \<noteq> [] \<longleftrightarrow>
      (\<exists>authed accept. Authed c = Inr authed \<and> NegotiateAccept c = Inr accept) \<and>
      Param_id c \<noteq> [])"
  by (cases "Authed c"; cases "NegotiateAccept c")
     (auto simp: handler_defs Let_def split: prod.splits sum.splits)

text \<open>The three refusals and a successful unfave.\<close>

theorem StatusUnfave_only_after_checks_witness:
  "StatusUnfavePOSTHandler example_StatusUnfave
     \<lparr>Authed = Inl ''token required'', NegotiateAccept = Inr ''application/json'',
      Param_id = ''S1''\<rparr> [''S1''] =
     (\<lparr>status_code = 401,
       response_body = ErrorBody \<lparr>Code = 401, Error = ''token required''\<rparr>\<rparr>, [''S1''], []) \<and>
   StatusUnfavePOSTHandler example_StatusUnfave
     \<lparr>Authed = Inr ''alice'', NegotiateAccept = Inl ''no match'', Param_id = ''S1''\<rparr> [''S1''] =
     (\<lparr>status_code = 406,
       response_body = ErrorBody \<lparr>Code = 406, Error = ''no match''\<rparr>\<rparr>, [''S1''], []) \<and>
   StatusUnfavePOSTHandler example_StatusUnfave
     \<lparr>Authed = Inr ''alice'', NegotiateAccept = Inr ''application/json'', Param_id = []\<rparr>
     [''S1''] =
     (\<lparr>status_code = 400,
       response_body = ErrorBody \<lparr>Code = 400, Error = ''no status id specified''\<rparr>\<rparr>,
      [''S1''], []) \<and>
   StatusUnfavePOSTHandler example_StatusUnfave
     \<lparr>Authed = Inr ''alice'', NegotiateAccept = Inr ''application/json'', Param_id = ''S1''\<rparr>
     [''S1''] =
     (\<lparr>status_code = 200, response_body = JSON ''S1''\<rparr>, [], [Call_StatusUnfave ''alice'' ''S1''])"
proof -
  let ?c1 = "\<lparr>Authed = Inl ''token required'', NegotiateAccept = Inr ''application/json'',
      Param_id = ''S1''\<rparr> :: string request"
  let ?c2 = "\<lparr>Authed = Inr ''alice'', NegotiateAccept = Inl ''no match'',
      Param_id = ''S1''\<rparr> :: string request"
  let ?c3 = "\<lparr>Authed = Inr ''alice'', NegotiateAccept = Inr ''application/json'',
      Param_id = []\<rparr> :: string request"
  have 1: "StatusUnfavePOSTHandler example_StatusUnfave ?c1 [''S1''] =
             (ErrorHandler (NewErrorUnauthorized ''token required''), [''S1''], [])"
    using StatusUnfave_only_after_checks [of ?c1 example_StatusUnfave "[''S1'']"] by simp
  have 2: "StatusUnfavePOSTHandler example_StatusUnfave ?c2 [''S1''] =
             (ErrorHandler (NewErrorNotAcceptable ''no match''), [''S1''], [])"
    using StatusUnfave_only_after_checks [of ?c2 example_StatusUnfave "[''S1'']"] by simp
  have 3: "StatusUnfavePOSTHandler example_StatusUnfave ?c3 [''S1''] =
             (ErrorHandler (NewErrorBadRequest ''no status id specified''), [''S1''], [])"
    using StatusUnfave_only_after_checks [of ?c3 example_StatusUnfave "[''S1'']"] by simp
  have 4: "StatusUnfavePOSTHandler example_StatusUnfave
     \<lparr>Authed = Inr ''alice'', NegotiateAccept = Inr ''application/json'', Param_id = ''S1''\<rparr>
     [''S1''] =
     (\<lparr>status_code = 200, response_body = JSON ''S1''\<rparr>, [], [Call_StatusUnfave ''alice'' ''S1''])"
    by (simp add: StatusUnfavePOSTHandler_def example_StatusUnfave_def Let_def)
  from 1 2 3 4 show ?thesis
    by (simp add: ErrorHandler_def NewErrorUnauthorized_def NewErrorNotAcceptable_def
          NewErrorBadRequest_def)
qed



end
